theory Spec2Isabelle
  imports Main "HOL-Library.Word"
begin

section \<open>Data model of package link\<close>

text \<open>
  The package copies bytes from an \<open>io.Reader\<close> to an \<open>io.Writer\<close>
  (\<open>OneWayLinkSpec\<close>) and runs two such copies in opposite directions
  (\<open>TwoWayLinkSpec\<close>).  The endpoints are interface values supplied by the caller, so
  they are parameters of the embedding: functions on an abstract world state \<open>'w\<close>,
  which they may share.
\<close>

type_synonym byte = "8 word"

text \<open>Go's \<open>error\<close> values: nil is \<open>None\<close>; \<open>io.EOF\<close> and
  \<open>io.ErrShortWrite\<close> are the two sentinels the code names, every other error is
  identified by its message.\<close>

datatype error = EOF | ErrShortWrite | ErrOther string

text \<open>A \<open>[]byte\<close> slice: its backing array (whose length is the capacity) and its
  length.  The nil slice is \<open>None\<close> of type \<open>slice option\<close>.\<close>

record slice =
  arr :: "byte list"
  len :: nat

definition cap :: "slice \<Rightarrow> nat" where
  "cap b = length (arr b)"

text \<open>\<open>make([]byte, n)\<close>: n zero bytes, length and capacity n.\<close>

definition make_slice :: "nat \<Rightarrow> slice" where
  "make_slice n = \<lparr>arr = replicate n 0, len = n\<rparr>"

definition defaultBufferSize :: nat where
  "defaultBufferSize = 1024"

text \<open>\<open>buf[:rn]\<close>: Go panics unless \<open>0 \<le> rn \<le> cap(buf)\<close>; otherwise the result
  holds the first rn bytes of the backing array.\<close>

definition slice_to :: "slice \<Rightarrow> int \<Rightarrow> byte list option" where
  "slice_to b rn = (if 0 \<le> rn \<and> rn \<le> int (cap b) then Some (take (nat rn) (arr b)) else None)"

text \<open>A \<open>Read(p)\<close> call stores bytes d at the start of p's backing array; the slice
  header of the caller does not change.\<close>

definition stored :: "slice \<Rightarrow> byte list \<Rightarrow> slice" where
  "stored b d = b\<lparr>arr := take (length (arr b)) (d @ drop (length d) (arr b))\<rparr>"

text \<open>
  \<open>src.Read(buf)\<close> returns the count n, the error, and the bytes it stored in the
  buffer, with the world after the call; \<open>dst.Write(p)\<close> returns the count and the
  error.  Go's \<open>int\<close> results are integers; nothing in the code computes on them
  except the conversion to \<open>int64\<close>.
\<close>

type_synonym 'w reader = "slice \<Rightarrow> 'w \<Rightarrow> (int \<times> error option \<times> byte list) \<times> 'w"
type_synonym 'w writer = "byte list \<Rightarrow> 'w \<Rightarrow> (int \<times> error option) \<times> 'w"

text \<open>\<open>callbackFunc\<close>: nil or a function from the chunk's bytes to the bytes to write,
  of any length.  A callback that also overwrites the chunk in place changes
  what the buffer holds when the next read is called; that is left out.\<close>

type_synonym callbackFunc = "(byte list \<Rightarrow> byte list) option"

text \<open>The context: nil, or a \<open>Done()\<close> channel; \<open>done i\<close> tells whether a receive
  from it is ready when the loop consults it for the i-th time (i from 0).\<close>

type_synonym ctx = "(nat \<Rightarrow> bool) option"

text \<open>The calls that can be made on the two endpoints of a copy, with their arguments
  and results: a read of the source (the length of the buffer passed, the count and the
  error returned), a write to the destination (the chunk passed, the count and the
  error returned), and the closing of either.\<close>

datatype event =
    SrcRead nat int "error option"
  | DstWrite "byte list" int "error option"
  | SrcClose
  | DstClose

text \<open>What a call of \<open>OneWayLinkSpec\<close> ends with: the named results
  \<open>(written, err)\<close>, or a run-time panic.\<close>

datatype result = Return "64 word" "error option" | Panic

text \<open>The variables alive across iterations of the copy loop: the world of the
  endpoints, \<open>buf\<close>, \<open>written\<close> (an \<open>int64\<close>, which wraps), the number of reads
  made so far (the context is consulted once after each), and the calls made so far on
  the endpoints, in order.\<close>

record 'w loopstate =
  world :: 'w
  buf :: slice
  written :: "64 word"
  polls :: nat
  calls :: "event list"

section \<open>OneWayLinkSpec\<close>

text \<open>How a statement ends with respect to the enclosing breakable statement.\<close>

datatype ctl = Normal | Break

text \<open>The clauses of the \<open>select\<close>: \<open>case <-ctx.Done(): break\<close> and an empty
  \<open>default\<close>.\<close>

definition select_clauses :: "bool \<Rightarrow> ctl" where
  "select_clauses ready = (if ready then Break else Normal)"

text \<open>A \<open>break\<close> ends the innermost \<open>for\<close>, \<open>switch\<close> or \<open>select\<close> statement:
  the \<open>select\<close> statement catches the \<open>break\<close> of its clause.\<close>

definition select_stmt :: "ctl \<Rightarrow> ctl" where
  "select_stmt c = (case c of Break \<Rightarrow> Normal | Normal \<Rightarrow> Normal)"

text \<open>\<open>if ctx != nil { select { ... } }\<close>, as the \<open>for\<close> loop sees it.\<close>

definition check_ctx :: "ctx \<Rightarrow> nat \<Rightarrow> ctl" where
  "check_ctx c i = (case c of None \<Rightarrow> Normal | Some done \<Rightarrow> select_stmt (select_clauses (done i)))"

definition apply_cb :: "callbackFunc \<Rightarrow> byte list \<Rightarrow> byte list" where
  "apply_cb cb tbuf = (case cb of None \<Rightarrow> tbuf | Some f \<Rightarrow> f tbuf)"

text \<open>The end of the loop body, \<open>if er != nil { if er != io.EOF { err = er }; break }\<close>:
  \<open>Inr\<close> leaves the loop and returns, \<open>Inl\<close> goes to the next iteration.\<close>

definition check_er :: "error option \<Rightarrow> 'w loopstate \<Rightarrow> 'w loopstate + (result \<times> 'w \<times> event list)" where
  "check_er er s =
     (if er \<noteq> None
      then Inr (Return (written s) (if er \<noteq> Some EOF then er else None), (world s, calls s))
      else Inl s)"

text \<open>\<open>if wn > 0 { written += int64(wn) }\<close>, in \<open>int64\<close> arithmetic.\<close>

definition add_written :: "64 word \<Rightarrow> int \<Rightarrow> 64 word" where
  "add_written n wn = (if wn > 0 then n + word_of_int wn else n)"

text \<open>One iteration of the \<open>for\<close> loop: the read, the consultation of the context,
  the write of the chunk when \<open>rn > 0\<close> (\<open>buf[:rn]\<close>, the callback, \<open>dst.Write\<close>,
  the count, the two checks of the write in the order of the code), the check of the
  read's error.\<close>

definition body :: "ctx \<Rightarrow> 'w reader \<Rightarrow> 'w writer \<Rightarrow> callbackFunc \<Rightarrow> 'w loopstate
    \<Rightarrow> 'w loopstate + (result \<times> 'w \<times> event list)" where
  "body c rd wr cb s =
     (let ((rn, er, d), w1) = rd (buf s) (world s);
          s1 = s\<lparr>world := w1, buf := stored (buf s) d,
                 calls := calls s @ [SrcRead (len (buf s)) rn er]\<rparr>
      in (case check_ctx c (polls s1) of
            Break \<Rightarrow> Inr (Return (written s1) None, world s1, calls s1)
          | Normal \<Rightarrow>
             (let s2 = s1\<lparr>polls := Suc (polls s1)\<rparr>
              in (if rn > 0 then
                   (case slice_to (buf s2) rn of
                      None \<Rightarrow> Inr (Panic, world s2, calls s2)
                    | Some chunk \<Rightarrow>
                       (let tbuf = apply_cb cb chunk;
                            ((wn, ew), w2) = wr tbuf (world s2);
                            s3 = s2\<lparr>world := w2,
                                    written := add_written (written s2) wn,
                                    calls := calls s2 @ [DstWrite tbuf wn ew]\<rparr>
                        in (if ew \<noteq> None
                            then Inr (Return (written s3) ew, world s3, calls s3)
                            else (if wn \<noteq> rn
                                  then Inr (Return (written s3) (Some ErrShortWrite), world s3, calls s3)
                                  else check_er er s3))))
                  else check_er er s2))))"

text \<open>\<open>for { ... }\<close>: the body runs until it breaks; a loop that never breaks has
  no result (\<open>None\<close>).\<close>

partial_function (option) for_loop :: "('s \<Rightarrow> 's + 'r) \<Rightarrow> 's \<Rightarrow> 'r option" where
  "for_loop b s = (case b s of Inl s' \<Rightarrow> for_loop b s' | Inr r \<Rightarrow> Some r)"

declare for_loop.simps [code]

text \<open>\<open>if buf == nil { buf = make([]byte, defaultBufferSize) }\<close>\<close>

definition buf_or_default :: "slice option \<Rightarrow> slice" where
  "buf_or_default b = (case b of None \<Rightarrow> make_slice defaultBufferSize | Some x \<Rightarrow> x)"

definition init :: "slice option \<Rightarrow> 'w \<Rightarrow> 'w loopstate" where
  "init b w = \<lparr>world = w, buf = buf_or_default b, written = 0, polls = 0, calls = []\<rparr>"

definition OneWayLinkSpec :: "ctx \<Rightarrow> 'w reader \<Rightarrow> 'w writer \<Rightarrow> slice option \<Rightarrow> callbackFunc \<Rightarrow> 'w
    \<Rightarrow> (result \<times> 'w \<times> event list) option" where
  "OneWayLinkSpec c rd wr b cb w = for_loop (body c rd wr cb) (init b w)"

definition OneWayLink :: "ctx \<Rightarrow> 'w reader \<Rightarrow> 'w writer \<Rightarrow> callbackFunc \<Rightarrow> 'w
    \<Rightarrow> (result \<times> 'w \<times> event list) option" where
  "OneWayLink c rd wr cb w = OneWayLinkSpec c rd wr None cb w"


section \<open>TwoWayLinkSpec\<close>

text \<open>
  \<open>TwoWayLinkSpec\<close> runs two flows: the goroutine it starts and the caller's own flow.
  Each flow is a sequence of statements; the statements of the two flows interleave.
  The variables they share are the named results \<open>w1, w2, e1, e2\<close>, the local
  variable \<open>err\<close> (declared once, captured by the closure and assigned by both
  flows) and the channel \<open>exit\<close>.  The two copies run at the same time on endpoints
  that both flows use and close, so what each call of \<open>OneWayLinkSpec\<close> returns is a
  parameter here: \<open>r1\<close> for the copy from h1 to h2, \<open>r2\<close> for the copy from h2 to
  h1.  A statement runs in one step; the executions in which the statements themselves
  overlap are more, not fewer.
\<close>

datatype flow = Goroutine | Caller

datatype endpoint = H1 | H2

record relay =
  w1 :: "64 word"
  w2 :: "64 word"
  e1 :: "error option"
  e2 :: "error option"
  err :: "error option"
  exit_closed :: bool
  pc_go :: nat
  pc_caller :: nat
  closed :: "endpoint list"

definition relay_init :: relay where
  "relay_init = \<lparr>w1 = 0, w2 = 0, e1 = None, e2 = None, err = None, exit_closed = False,
     pc_go = 0, pc_caller = 0, closed = []\<rparr>"

text \<open>The statements of the goroutine, by position:
  \<open>w1, err = OneWayLinkSpec(ctx, h1, h2, buf1, cb1)\<close>;
  \<open>if err != nil { e1 = err }\<close>; \<open>h1.Close()\<close>; \<open>h2.Close()\<close>; \<open>close(exit)\<close>.
  \<open>None\<close>: the flow has ended.\<close>

definition step_go :: "64 word \<times> error option \<Rightarrow> relay \<Rightarrow> relay option" where
  "step_go r1 st =
     (if pc_go st = 0 then Some (st\<lparr>w1 := fst r1, err := snd r1, pc_go := 1\<rparr>)
      else if pc_go st = 1
      then Some (if err st \<noteq> None then st\<lparr>e1 := err st, pc_go := 2\<rparr> else st\<lparr>pc_go := 2\<rparr>)
      else if pc_go st = 2 then Some (st\<lparr>closed := closed st @ [H1], pc_go := 3\<rparr>)
      else if pc_go st = 3 then Some (st\<lparr>closed := closed st @ [H2], pc_go := 4\<rparr>)
      else if pc_go st = 4 then Some (st\<lparr>exit_closed := True, pc_go := 5\<rparr>)
      else None)"

text \<open>The statements of the caller's flow:
  \<open>w2, err = OneWayLinkSpec(ctx, h2, h1, buf2, cb2)\<close>;
  \<open>if err != nil { e2 = err }\<close>; \<open>h2.Close()\<close>; \<open>h1.Close()\<close>; \<open><-exit\<close>, which
  blocks until the channel is closed; \<open>return\<close>.
  \<open>None\<close>: the flow is blocked or has returned.\<close>

definition step_caller :: "64 word \<times> error option \<Rightarrow> relay \<Rightarrow> relay option" where
  "step_caller r2 st =
     (if pc_caller st = 0 then Some (st\<lparr>w2 := fst r2, err := snd r2, pc_caller := 1\<rparr>)
      else if pc_caller st = 1
      then Some (if err st \<noteq> None then st\<lparr>e2 := err st, pc_caller := 2\<rparr> else st\<lparr>pc_caller := 2\<rparr>)
      else if pc_caller st = 2 then Some (st\<lparr>closed := closed st @ [H2], pc_caller := 3\<rparr>)
      else if pc_caller st = 3 then Some (st\<lparr>closed := closed st @ [H1], pc_caller := 4\<rparr>)
      else if pc_caller st = 4 \<and> exit_closed st then Some (st\<lparr>pc_caller := 5\<rparr>)
      else None)"

text \<open>A schedule names the flow that runs the next statement.\<close>

fun run :: "64 word \<times> error option \<Rightarrow> 64 word \<times> error option \<Rightarrow> flow list \<Rightarrow> relay \<Rightarrow> relay option" where
  "run r1 r2 [] st = Some st"
| "run r1 r2 (Goroutine # fs) st = (case step_go r1 st of None \<Rightarrow> None | Some st' \<Rightarrow> run r1 r2 fs st')"
| "run r1 r2 (Caller # fs) st = (case step_caller r2 st of None \<Rightarrow> None | Some st' \<Rightarrow> run r1 r2 fs st')"

text \<open>The quadruple \<open>TwoWayLinkSpec\<close> returns under a schedule that takes the caller's
  flow to its \<open>return\<close>; \<open>None\<close> for a schedule that is not an execution or does
  not get there.\<close>

definition TwoWayLinkSpec :: "64 word \<times> error option \<Rightarrow> 64 word \<times> error option \<Rightarrow> flow list
    \<Rightarrow> (64 word \<times> 64 word \<times> error option \<times> error option) option" where
  "TwoWayLinkSpec r1 r2 sched =
     (case run r1 r2 sched relay_init of
        None \<Rightarrow> None
      | Some st \<Rightarrow> if pc_caller st = 5 then Some (w1 st, w2 st, e1 st, e2 st) else None)"

text \<open>What holds of the two flows at every moment: the channel is closed only by the
  last statement of the goroutine, and the caller returns only past its receive.\<close>

definition relay_inv :: "relay \<Rightarrow> bool" where
  "relay_inv st = ((exit_closed st \<longrightarrow> pc_go st = 5) \<and> (pc_caller st = 5 \<longrightarrow> exit_closed st))"

section \<open>Runs, call logs and endpoints for the statements\<close>

text \<open>The state at the head of iteration k of a loop, if the loop gets that far.\<close>

fun iterate :: "('s \<Rightarrow> 's + 'r) \<Rightarrow> nat \<Rightarrow> 's \<Rightarrow> 's option" where
  "iterate b 0 s = Some s"
| "iterate b (Suc k) s = (case b s of Inl s' \<Rightarrow> iterate b k s' | Inr r \<Rightarrow> None)"

text \<open>The byte count that the write calls of a log add up to, as the code counts
  them.\<close>

fun total_written :: "event list \<Rightarrow> 64 word" where
  "total_written [] = 0"
| "total_written (DstWrite p wn ew # es) = add_written 0 wn + total_written es"
| "total_written (e # es) = total_written es"

text \<open>The bytes that the write calls of a log were given, in order.\<close>

fun bytes_offered :: "event list \<Rightarrow> byte list" where
  "bytes_offered [] = []"
| "bytes_offered (DstWrite p wn ew # es) = p @ bytes_offered es"
| "bytes_offered (e # es) = bytes_offered es"


text \<open>A source and a destination that share no state: the world is a pair.\<close>

definition on_src :: "'r reader \<Rightarrow> ('r \<times> 'd) reader" where
  "on_src rdr b w = (case rdr b (fst w) of (x, r') \<Rightarrow> (x, (r', snd w)))"

definition on_dst :: "'d writer \<Rightarrow> ('r \<times> 'd) writer" where
  "on_dst wrt p w = (case wrt p (snd w) of (x, d') \<Rightarrow> (x, (fst w, d')))"

text \<open>Endpoints next to a part of the world that they leave alone: \<open>on_src\<close> for
  the source, this for the destination.\<close>

definition beside_wr :: "'w writer \<Rightarrow> ('w \<times> 'x) writer" where
  "beside_wr wrt p w = (case wrt p (fst w) of (x, u) \<Rightarrow> (x, (u, snd w)))"

text \<open>A destination that accepts every byte offered and keeps what it received.\<close>

definition accept_all :: "(byte list) writer" where
  "accept_all p out = ((int (length p), None), out @ p)"

text \<open>A destination that answers from a list of replies \<open>(n, err)\<close>, keeping the
  first n bytes of each chunk, and accepts everything once the list is used up.\<close>

definition reply_write :: "((int \<times> error option) list \<times> byte list) writer" where
  "reply_write p w =
     (case fst w of
        [] \<Rightarrow> ((int (length p), None), ([], snd w @ p))
      | (n, e) # rs \<Rightarrow> ((n, e), (rs, snd w @ take (nat n) p)))"

text \<open>A source that delivers a list of chunks, each with the error it reports, and
  reports end-of-input with no bytes afterwards.\<close>

definition script_read :: "((byte list \<times> error option) list) reader" where
  "script_read b rs =
     (case rs of
        [] \<Rightarrow> ((0, Some EOF, []), [])
      | (d, e) # rs' \<Rightarrow> ((int (length d), e, d), rs'))"

text \<open>A transform that doubles the length of a chunk.\<close>

definition double :: "byte list \<Rightarrow> byte list" where
  "double p = p @ p"

text \<open>
  \<open>drains rdr b r data r'\<close>: read again and again with buffer b from state r, the
  source delivers the bytes \<open>data\<close> in all, each count within the buffer's capacity,
  no error before the read that reports end-of-input, and is then in state r'.
\<close>

inductive drains :: "'r reader \<Rightarrow> slice \<Rightarrow> 'r \<Rightarrow> byte list \<Rightarrow> 'r \<Rightarrow> bool" for rdr where
  last: "rdr b r = ((rn, Some EOF, d), r') \<Longrightarrow> rn \<le> int (cap b)
           \<Longrightarrow> drains rdr b r (take (nat rn) (arr (stored b d))) r'"
| more: "rdr b r = ((rn, None, d), r') \<Longrightarrow> rn \<le> int (cap b)
           \<Longrightarrow> drains rdr (stored b d) r' data r''
           \<Longrightarrow> drains rdr b r (take (nat rn) (arr (stored b d)) @ data) r''"

section \<open>The loop\<close>

text \<open>The definitions that evaluate a run on concrete endpoints.\<close>

lemmas eval_defs = OneWayLinkSpec_def OneWayLink_def init_def buf_or_default_def make_slice_def
  defaultBufferSize_def body_def check_ctx_def select_stmt_def select_clauses_def apply_cb_def
  check_er_def add_written_def stored_def slice_to_def cap_def on_src_def on_dst_def
  accept_all_def reply_write_def script_read_def double_def beside_wr_def Let_def

lemma for_loop_Inr: "b s = Inr r \<Longrightarrow> for_loop b s = Some r"
  by (subst for_loop.simps) simp

lemma for_loop_Inl: "b s = Inl s' \<Longrightarrow> for_loop b s = for_loop b s'"
  by (subst for_loop.simps) simp

lemma for_loop_iterate: "iterate b k s = Some s' \<Longrightarrow> for_loop b s = for_loop b s'"
proof (induction k arbitrary: s)
  case 0
  then show ?case by simp
next
  case (Suc k)
  then show ?case
    by (cases "b s") (simp_all add: for_loop_Inl)
qed

text \<open>A property that every iteration keeps holds at the head of every iteration
  reached, and gives what the loop returns, if it returns.\<close>

lemma iterate_invariant:
  assumes "iterate b k s = Some s'" and "I s"
    and step: "\<And>x y. I x \<Longrightarrow> b x = Inl y \<Longrightarrow> I y"
  shows "I s'"
  using assms(1,2)
proof (induction k arbitrary: s)
  case 0
  then show ?case by simp
next
  case (Suc k)
  show ?case
  proof (cases "b s")
    case (Inl y)
    with Suc.prems have "iterate b k y = Some s'" and "I y"
      by (simp_all add: step)
    then show ?thesis by (rule Suc.IH)
  next
    case (Inr r)
    with Suc.prems show ?thesis by simp
  qed
qed

lemma for_loop_invariant:
  fixes b :: "'b \<Rightarrow> 'b + 'a"
  assumes run: "for_loop b s = Some r" and "I s"
    and step: "\<And>x y. I x \<Longrightarrow> b x = Inl y \<Longrightarrow> I y"
    and exit: "\<And>x y. I x \<Longrightarrow> b x = Inr y \<Longrightarrow> Q y"
  shows "Q r"
proof -
  have "b = b \<longrightarrow> I s \<longrightarrow> Q r"
  proof (rule for_loop.raw_induct[where P="\<lambda>b' s' r'. b' = b \<longrightarrow> I s' \<longrightarrow> Q r'", OF _ run])
    fix loop :: "('b \<Rightarrow> 'b + 'a) \<Rightarrow> 'b \<Rightarrow> 'a option" and b' s' r'
    assume IH: "\<And>f x y. loop f x = Some y \<Longrightarrow> f = b \<longrightarrow> I x \<longrightarrow> Q y"
      and unfold: "(case b' s' of Inl x \<Rightarrow> loop b' x | Inr y \<Rightarrow> Some y) = Some r'"
    show "b' = b \<longrightarrow> I s' \<longrightarrow> Q r'"
    proof (intro impI)
      assume eq: "b' = b" and inv: "I s'"
      show "Q r'"
      proof (cases "b s'")
        case (Inl x)
        with unfold eq have "loop b x = Some r'" by simp
        moreover from inv Inl have "I x" by (rule step)
        ultimately show ?thesis using IH by blast
      next
        case (Inr y)
        with unfold eq have "y = r'" by simp
        with inv Inr show ?thesis using exit by blast
      qed
    qed
  qed
  with assms(2) show ?thesis by simp
qed

section \<open>One iteration\<close>

lemma check_ctx_Normal: "check_ctx c i = Normal"
  by (simp add: check_ctx_def select_stmt_def select_clauses_def split: option.split ctl.split)

lemma cap_stored: "cap (stored b d) = cap b"
  by (simp add: stored_def cap_def)


lemma slice_to_within:
  "rn \<le> int (cap b) \<Longrightarrow> 0 < rn \<Longrightarrow> slice_to (stored b d) rn = Some (take (nat rn) (arr (stored b d)))"
  by (simp add: slice_to_def cap_stored)

lemma length_chunk:
  "rn \<le> int (cap b) \<Longrightarrow> 0 < rn \<Longrightarrow> int (length (take (nat rn) (arr (stored b d)))) = rn"
  using cap_stored[of b d] by (simp add: cap_def)

lemma arr_stored_chunk:
  "length d \<le> cap b \<Longrightarrow> take (length d) (arr (stored b d)) = d"
  by (simp add: stored_def cap_def)

lemma total_written_append:
  "total_written (es @ fs) = total_written es + total_written fs"
  by (induction es rule: total_written.induct) simp_all

lemma total_written_write:
  "total_written (es @ [DstWrite p wn ew]) = add_written (total_written es) wn"
  by (simp add: total_written_append add_written_def)

lemma total_written_read:
  "total_written (es @ [SrcRead n rn er]) = total_written es"
  by (simp add: total_written_append)

lemma bytes_offered_append:
  "bytes_offered (es @ fs) = bytes_offered es @ bytes_offered fs"
  by (induction es rule: bytes_offered.induct) simp_all

text \<open>The three ways through the body: the read delivers no bytes; it reports more
  bytes than the buffer can hold; it delivers a chunk, which is written.\<close>

lemma body_no_data:
  assumes "rd (buf s) (world s) = ((rn, er, d), w')" and "\<not> 0 < rn"
  shows "body c rd wr cb s =
    check_er er (s\<lparr>world := w', buf := stored (buf s) d,
      calls := calls s @ [SrcRead (len (buf s)) rn er], polls := Suc (polls s)\<rparr>)"
  using assms
  by (auto simp: body_def check_ctx_Normal Let_def
      intro!: arg_cong[where f="check_er er"] loopstate.equality)

lemma body_panic:
  assumes "rd (buf s) (world s) = ((rn, er, d), w')" and "0 < rn"
    and "slice_to (stored (buf s) d) rn = None"
  shows "body c rd wr cb s = Inr (Panic, w', calls s @ [SrcRead (len (buf s)) rn er])"
  using assms by (simp add: body_def check_ctx_Normal Let_def)

lemma body_data:
  assumes "rd (buf s) (world s) = ((rn, er, d), w')" and "0 < rn"
    and "slice_to (stored (buf s) d) rn = Some chunk"
    and "wr (apply_cb cb chunk) w' = ((wn, ew), w'')"
  shows "body c rd wr cb s =
    (let s3 = s\<lparr>world := w'', buf := stored (buf s) d,
                 written := add_written (written s) wn,
                 calls := calls s @ [SrcRead (len (buf s)) rn er, DstWrite (apply_cb cb chunk) wn ew],
                 polls := Suc (polls s)\<rparr>
     in if ew \<noteq> None then Inr (Return (written s3) ew, w'', calls s3)
        else if wn \<noteq> rn then Inr (Return (written s3) (Some ErrShortWrite), w'', calls s3)
        else check_er er s3)"
  using assms
  by (auto simp: body_def check_ctx_Normal Let_def
      intro!: arg_cong[where f="check_er er"] loopstate.equality)

text \<open>What an iteration keeps: the running total is the total of the write calls so
  far; the buffer is the one of the iteration before, with the bytes the read stored;
  what reads and writes leave alone in the world is left alone; nothing is closed.\<close>

lemma body_written_inv:
  assumes "written s = total_written (calls s)" and "body c rd wr cb s = Inl s'"
  shows "written s' = total_written (calls s')"
proof -
  obtain rn er d w' where rd: "rd (buf s) (world s) = ((rn, er, d), w')"
    by (metis prod_cases3 surj_pair)
  show ?thesis
  proof (cases "0 < rn")
    case False
    with rd assms show ?thesis
      by (auto simp: body_no_data check_er_def total_written_read split: if_splits)
  next
    case True
    show ?thesis
    proof (cases "slice_to (stored (buf s) d) rn")
      case None
      with rd True assms show ?thesis by (simp add: body_panic)
    next
      case (Some chunk)
      obtain wn ew w'' where wr: "wr (apply_cb cb chunk) w' = ((wn, ew), w'')"
        by (metis surj_pair)
      from body_data[of rd s rn er d w' chunk wr cb wn ew w'' c] rd True Some wr assms show ?thesis
        by (auto simp: Let_def check_er_def total_written_write total_written_read
            total_written_append add_written_def split: if_splits)
    qed
  qed
qed


lemma reached_written:
  assumes "iterate (body c rd wr cb) k (init b w) = Some s"
  shows "written s = total_written (calls s)"
  by (rule iterate_invariant[OF assms, where I="\<lambda>s. written s = total_written (calls s)"])
     (simp_all add: init_def body_written_inv)

lemma body_frame:
  assumes rd_frame: "\<And>p x. f (snd (rd p x)) = f x" and wr_frame: "\<And>p x. f (snd (wr p x)) = f x"
  shows "(body c rd wr cb s = Inl s' \<longrightarrow> f (world s') = f (world s))
    \<and> (body c rd wr cb s = Inr (r, w', tr) \<longrightarrow> f w' = f (world s))"
proof -
  obtain rn er d u where rd: "rd (buf s) (world s) = ((rn, er, d), u)"
    by (metis prod_cases3 surj_pair)
  then have u: "f u = f (world s)"
    using rd_frame[of "buf s" "world s"] by simp
  show ?thesis
  proof (cases "0 < rn")
    case False
    with rd u show ?thesis
      by (auto simp: body_no_data check_er_def split: if_splits)
  next
    case True
    show ?thesis
    proof (cases "slice_to (stored (buf s) d) rn")
      case None
      with rd True u show ?thesis by (auto simp: body_panic)
    next
      case (Some chunk)
      obtain wn ew v where wr: "wr (apply_cb cb chunk) u = ((wn, ew), v)"
        by (metis surj_pair)
      then have v: "f v = f (world s)"
        using wr_frame[of "apply_cb cb chunk" u] u by simp
      from body_data[of rd s rn er d u chunk wr cb wn ew v c] rd True Some wr v show ?thesis
        by (auto simp: Let_def check_er_def split: if_splits)
    qed
  qed
qed

lemma body_calls:
  assumes "SrcClose \<notin> set (calls s) \<and> DstClose \<notin> set (calls s)"
  shows "(body c rd wr cb s = Inl s' \<longrightarrow> SrcClose \<notin> set (calls s') \<and> DstClose \<notin> set (calls s'))
    \<and> (body c rd wr cb s = Inr (r, w', tr) \<longrightarrow> SrcClose \<notin> set tr \<and> DstClose \<notin> set tr)"
proof -
  obtain rn er d u where rd: "rd (buf s) (world s) = ((rn, er, d), u)"
    by (metis prod_cases3 surj_pair)
  show ?thesis
  proof (cases "0 < rn")
    case False
    with rd assms show ?thesis
      by (auto simp: body_no_data check_er_def split: if_splits)
  next
    case True
    show ?thesis
    proof (cases "slice_to (stored (buf s) d) rn")
      case None
      with rd True assms show ?thesis by (auto simp add: body_panic)
    next
      case (Some chunk)
      obtain wn ew v where wr: "wr (apply_cb cb chunk) u = ((wn, ew), v)"
        by (metis surj_pair)
      from body_data[of rd s rn er d u chunk wr cb wn ew v c] rd True Some wr assms show ?thesis
        by (auto simp: Let_def check_er_def split: if_splits)
    qed
  qed
qed

section \<open>Sources that end and destinations that accept\<close>

lemma on_src_eq: "rdr b r = (x, r') \<Longrightarrow> on_src rdr b (r, out) = (x, (r', out))"
  by (simp add: on_src_def)

lemma on_dst_accept_all:
  "on_dst accept_all p (r, out) = ((int (length p), None), (r, out @ p))"
  by (simp add: on_dst_def accept_all_def)

lemma drains_copy:
  assumes "drains rdr b r data r'"
  shows "buf s = b \<Longrightarrow> world s = (r, out) \<Longrightarrow>
    \<exists>tr. for_loop (body c (on_src rdr) (on_dst accept_all) None) s =
      Some (Return (written s + word_of_nat (length data)) None, (r', out @ data), calls s @ tr)
      \<and> bytes_offered tr = data"
  using assms
proof (induction arbitrary: s out rule: drains.induct)
  case (last b r rn d r')
  let ?chunk = "take (nat rn) (arr (stored b d))"
  from last have rd: "on_src rdr (buf s) (world s) = ((rn, Some EOF, d), (r', out))"
    by (simp add: on_src_eq)
  show ?case
  proof (cases "0 < rn")
    case False
    then have "body c (on_src rdr) (on_dst accept_all) None s =
        Inr (Return (written s) None, (r', out), calls s @ [SrcRead (len (buf s)) rn (Some EOF)])"
      using body_no_data[where rd="on_src rdr" and s=s and c=c and wr="on_dst accept_all" and cb=None, OF rd] by (simp add: check_er_def)
    then have "for_loop (body c (on_src rdr) (on_dst accept_all) None) s =
        Some (Return (written s) None, (r', out), calls s @ [SrcRead (len (buf s)) rn (Some EOF)])"
      by (rule for_loop_Inr)
    with False show ?thesis by simp
  next
    case True
    from last True have sl: "slice_to (stored (buf s) d) rn = Some ?chunk"
      by (simp add: slice_to_within)
    have wr: "on_dst accept_all (apply_cb None ?chunk) (r', out) = ((rn, None), (r', out @ ?chunk))"
      using length_chunk[of rn b d] last True by (simp add: on_dst_accept_all apply_cb_def)
    have "body c (on_src rdr) (on_dst accept_all) None s =
        Inr (Return (add_written (written s) rn) None, (r', out @ ?chunk),
             calls s @ [SrcRead (len (buf s)) rn (Some EOF), DstWrite ?chunk rn None])"
      using body_data[of "on_src rdr" s rn "Some EOF" d "(r', out)" ?chunk "on_dst accept_all" None rn None "(r', out @ ?chunk)" c]
        rd True sl wr last
      by (simp add: Let_def check_er_def apply_cb_def)
    then have "for_loop (body c (on_src rdr) (on_dst accept_all) None) s =
        Some (Return (add_written (written s) rn) None, (r', out @ ?chunk),
             calls s @ [SrcRead (len (buf s)) rn (Some EOF), DstWrite ?chunk rn None])"
      by (rule for_loop_Inr)
    moreover have "add_written (written s) rn = written s + word_of_nat (length ?chunk)"
      using length_chunk[of rn b d] last True
      by (simp add: add_written_def del: length_take) (metis of_int_of_nat_eq)
    ultimately show ?thesis by simp
  qed
next
  case (more b r rn d r' data r'')
  let ?chunk = "take (nat rn) (arr (stored b d))"
  from more have rd: "on_src rdr (buf s) (world s) = ((rn, None, d), (r', out))"
    by (simp add: on_src_eq)
  show ?case
  proof (cases "0 < rn")
    case False
    let ?s' = "s\<lparr>world := (r', out), buf := stored (buf s) d,
      calls := calls s @ [SrcRead (len (buf s)) rn None], polls := Suc (polls s)\<rparr>"
    have "body c (on_src rdr) (on_dst accept_all) None s = Inl ?s'"
      using body_no_data[where rd="on_src rdr" and s=s and c=c and wr="on_dst accept_all" and cb=None, OF rd False] by (simp add: check_er_def)
    then have loop: "for_loop (body c (on_src rdr) (on_dst accept_all) None) s =
        for_loop (body c (on_src rdr) (on_dst accept_all) None) ?s'"
      by (rule for_loop_Inl)
    have "buf ?s' = stored b d" "world ?s' = (r', out)"
      using more by simp_all
    from more.IH[OF this] obtain tr where
      "for_loop (body c (on_src rdr) (on_dst accept_all) None) ?s' =
         Some (Return (written ?s' + word_of_nat (length data)) None, (r'', out @ data), calls ?s' @ tr)"
      and "bytes_offered tr = data"
      by blast
    with loop False show ?thesis
      by (intro exI[of _ "SrcRead (len (buf s)) rn None # tr"]) simp
  next
    case True
    let ?s' = "s\<lparr>world := (r', out @ ?chunk), buf := stored (buf s) d,
                 written := add_written (written s) rn,
                 calls := calls s @ [SrcRead (len (buf s)) rn None, DstWrite ?chunk rn None],
                 polls := Suc (polls s)\<rparr>"
    from more True have sl: "slice_to (stored (buf s) d) rn = Some ?chunk"
      by (simp add: slice_to_within)
    have wr: "on_dst accept_all (apply_cb None ?chunk) (r', out) = ((rn, None), (r', out @ ?chunk))"
      using length_chunk[of rn b d] more True by (simp add: on_dst_accept_all apply_cb_def)
    have "body c (on_src rdr) (on_dst accept_all) None s = Inl ?s'"
      using body_data[of "on_src rdr" s rn None d "(r', out)" ?chunk "on_dst accept_all" None rn None "(r', out @ ?chunk)" c]
        rd True sl wr more
      by (simp add: Let_def check_er_def apply_cb_def)
    then have loop: "for_loop (body c (on_src rdr) (on_dst accept_all) None) s =
        for_loop (body c (on_src rdr) (on_dst accept_all) None) ?s'"
      by (rule for_loop_Inl)
    have "buf ?s' = stored b d" "world ?s' = (r', out @ ?chunk)"
      using more by simp_all
    from more.IH[OF this] obtain tr where
      run: "for_loop (body c (on_src rdr) (on_dst accept_all) None) ?s' =
         Some (Return (written ?s' + word_of_nat (length data)) None, (r'', (out @ ?chunk) @ data), calls ?s' @ tr)"
      and tr: "bytes_offered tr = data"
      by blast
    have "add_written (written s) rn = written s + word_of_nat (length ?chunk)"
      using length_chunk[of rn b d] more True
      by (simp add: add_written_def del: length_take) (metis of_int_of_nat_eq)
    with run have "for_loop (body c (on_src rdr) (on_dst accept_all) None) ?s' =
         Some (Return (written s + word_of_nat (length (?chunk @ data))) None, (r'', out @ ?chunk @ data),
           calls s @ (SrcRead (len (buf s)) rn None # DstWrite ?chunk rn None # tr))"
      by (simp del: length_take)
    with loop tr show ?thesis
      by (intro exI[of _ "SrcRead (len (buf s)) rn None # DstWrite ?chunk rn None # tr"]) simp
  qed
qed

lemma drains_script:
  "list_all (\<lambda>(p, e). e = None \<and> length p \<le> cap b) rs
    \<Longrightarrow> drains script_read b rs (concat (map fst rs)) []"
proof (induction rs arbitrary: b)
  case Nil
  have "drains script_read b [] (take (nat 0) (arr (stored b []))) []"
    by (rule drains.last[where d="[]"]) (simp_all add: script_read_def)
  then show ?case by simp
next
  case (Cons x rs)
  obtain d e where x: "x = (d, e)" by (cases x)
  with Cons.prems have e: "e = None" and fit: "length d \<le> cap b"
    and rest: "list_all (\<lambda>(p, e). e = None \<and> length p \<le> cap (stored b d)) rs"
    by (simp_all add: cap_stored)
  have "drains script_read b (x # rs)
      (take (nat (int (length d))) (arr (stored b d)) @ concat (map fst rs)) []"
  proof (rule drains.more)
    show "script_read b (x # rs) = ((int (length d), None, d), rs)"
      using x e by (simp add: script_read_def)
    show "int (length d) \<le> int (cap b)" using fit by simp
    show "drains script_read (stored b d) rs (concat (map fst rs)) []"
      using rest by (rule Cons.IH)
  qed
  with x fit show ?case
    by (simp add: arr_stored_chunk del: length_take)
qed

lemma sint_count: "n < 2 ^ 63 \<Longrightarrow> sint (word_of_nat n :: 64 word) = int n"
  by (simp add: signed_of_nat signed_take_bit_int_eq_self)

section \<open>The buffer of a run\<close>





section \<open>The two flows of TwoWayLinkSpec\<close>

lemma step_go_inv: "relay_inv st \<Longrightarrow> step_go r1 st = Some st' \<Longrightarrow> relay_inv st'"
  by (auto simp: relay_inv_def step_go_def split: if_splits)

lemma step_caller_inv: "relay_inv st \<Longrightarrow> step_caller r2 st = Some st' \<Longrightarrow> relay_inv st'"
  by (auto simp: relay_inv_def step_caller_def split: if_splits)

lemma run_inv: "run r1 r2 sched st = Some st' \<Longrightarrow> relay_inv st \<Longrightarrow> relay_inv st'"
proof (induction r1 r2 sched st rule: run.induct)
  case (1 r1 r2 st)
  then show ?case by simp
next
  case (2 r1 r2 fs st)
  then show ?case
    by (auto split: option.splits dest: step_go_inv)
next
  case (3 r1 r2 fs st)
  then show ?case
    by (auto split: option.splits dest: step_caller_inv)
qed

lemma returns_after_goroutine:
  assumes "TwoWayLinkSpec r1 r2 sched = Some q"
  shows "\<exists>st. run r1 r2 sched relay_init = Some st \<and> pc_caller st = 5 \<and> pc_go st = 5"
proof -
  from assms obtain st where st: "run r1 r2 sched relay_init = Some st" and pc: "pc_caller st = 5"
    by (auto simp: TwoWayLinkSpec_def split: option.splits if_splits)
  have "relay_inv relay_init"
    by (simp add: relay_inv_def relay_init_def)
  with st have "relay_inv st" by (rule run_inv)
  with pc have "pc_go st = 5"
    by (simp add: relay_inv_def split: if_splits)
  with st pc show ?thesis by blast
qed

section \<open>The claims\<close>

text \<open>
  C1.  The claim: a write that returns fewer bytes than it was given, and no error, ends
  the copy with \<open>io.ErrShortWrite\<close>, and \<open>io.ErrShortWrite\<close> is returned in no other
  case, whatever the transform did to the chunk's length.  The code compares the count
  of the write with \<open>rn\<close>, the count of the read, not with the length of the chunk it
  passed to \<open>Write\<close>.  With a transform that doubles a chunk of three bytes: a write
  that takes all six bytes ends the copy with \<open>io.ErrShortWrite\<close>; a write that takes
  three of the six and reports no error goes unnoticed, and the copy ends with no error.
\<close>

theorem short_write_check_uses_read_count:
  "OneWayLinkSpec None (on_src script_read) (on_dst accept_all) (Some (make_slice 4)) (Some double)
     ([([1, 2, 3], None)], [])
   = Some (Return 6 (Some ErrShortWrite), ([], [1, 2, 3, 1, 2, 3]),
       [SrcRead 4 3 None, DstWrite [1, 2, 3, 1, 2, 3] 6 None])
  \<and> OneWayLinkSpec None (on_src script_read) (on_dst reply_write) (Some (make_slice 4)) (Some double)
     ([([1, 2, 3], None)], ([(3, None)], []))
   = Some (Return 3 None, ([], ([], [1, 2, 3])),
       [SrcRead 4 3 None, DstWrite [1, 2, 3, 1, 2, 3] 3 None, SrcRead 4 0 (Some EOF)])"
  by (simp add: eval_defs for_loop.simps)

text \<open>
  C2.  The claim: with a transform that changes the length of a chunk and a destination
  that accepts every byte, the copy ends with no error and has written every transformed
  chunk.  On the chunks \<open>[1, 2]\<close> and \<open>[3]\<close> with the doubling transform the code
  writes the four bytes of the first transformed chunk, returns
  \<open>(4, io.ErrShortWrite)\<close> and leaves the second chunk in the source.
\<close>

theorem doubling_transform_stops_after_first_chunk:
  "OneWayLinkSpec None (on_src script_read) (on_dst accept_all) (Some (make_slice 4)) (Some double)
     ([([1, 2], None), ([3], None)], [])
   = Some (Return 4 (Some ErrShortWrite), ([([3], None)], [1, 2, 1, 2]),
       [SrcRead 4 2 None, DstWrite [1, 2, 1, 2] 4 None])"
  by (simp add: eval_defs for_loop.simps)

text \<open>
  C3.  Whatever the context is (nil, a \<open>Done\<close> channel that never becomes ready, or one
  that is ready from any consultation on), \<open>OneWayLinkSpec\<close> ends as it does with a
  nil context: same results, same final world, same calls on the endpoints, and it runs
  forever in the same cases.  The \<open>break\<close> under \<open>case <-ctx.Done()\<close> leaves the
  \<open>select\<close>, not the \<open>for\<close>.
\<close>

theorem cancellation_never_stops_the_copy:
  "OneWayLinkSpec c rd wr b cb w = OneWayLinkSpec None rd wr b cb w"
proof -
  have "body c rd wr cb = body None rd wr cb"
    by (rule ext) (simp add: body_def check_ctx_Normal)
  then show ?thesis by (simp add: OneWayLinkSpec_def)
qed

text \<open>
  C4.  A source that, read again and again with the buffer of the call, delivers the
  bytes \<open>data\<close> in all and then reports end-of-input (\<open>drains\<close>); no transform; a
  destination that accepts every byte and holds \<open>out\<close> before the call.  Then
  \<open>OneWayLinkSpec\<close> returns with no error, the destination holds \<open>out @ data\<close>, the
  chunks given to the write calls make up \<open>data\<close> in order, and the count is the
  length of \<open>data\<close> as an \<open>int64\<close>: the length itself whenever it is below
  \<open>2^63\<close>, by \<open>sint_count\<close>.
\<close>

theorem identity_copy_delivers_every_byte:
  assumes "drains rdr (buf_or_default b) r data r'"
  shows "\<exists>tr. OneWayLinkSpec c (on_src rdr) (on_dst accept_all) b None (r, out) =
      Some (Return (word_of_nat (length data)) None, (r', out @ data), tr)
    \<and> bytes_offered tr = data"
  using drains_copy[OF assms, of "init b (r, out)" out c] by (simp add: OneWayLinkSpec_def init_def)

text \<open>Scenario A of the specification: eleven bytes through a buffer of four.\<close>

theorem identity_copy_delivers_every_byte_witness:
  "\<exists>tr. OneWayLinkSpec None (on_src script_read) (on_dst accept_all) (Some (make_slice 4)) None
      ([([104, 101, 108, 108], None), ([111, 32, 119, 111], None), ([114, 108, 100], None)], [])
    = Some (Return 11 None, ([], [104, 101, 108, 108, 111, 32, 119, 111, 114, 108, 100]), tr)
   \<and> bytes_offered tr = [104, 101, 108, 108, 111, 32, 119, 111, 114, 108, 100]"
proof -
  let ?rs = "[([104, 101, 108, 108], None), ([111, 32, 119, 111], None), ([114, 108, 100], None)]
     :: (byte list \<times> error option) list"
  have "drains script_read (buf_or_default (Some (make_slice 4))) ?rs (concat (map fst ?rs)) []"
    by (rule drains_script) (simp add: buf_or_default_def make_slice_def cap_def)
  from identity_copy_delivers_every_byte[OF this, of None "[]"] show ?thesis
    by simp
qed

text \<open>
  C5.  Let the copy reach the head of an iteration in state s (after k full iterations),
  let the read of this iteration deliver \<open>rn > 0\<close> bytes within the buffer's capacity,
  and let the write of the transformed chunk return the count wn with an error e.
  Then \<open>OneWayLinkSpec\<close> returns; the error is e; the count is the total of the write
  calls made before this iteration, plus wn when wn is positive; the world is the one
  this write left, and this write is the last call on an endpoint.
\<close>

theorem write_error_ends_the_copy:
  assumes "iterate (body c rd wr cb) k (init b w) = Some s"
    and "rd (buf s) (world s) = ((rn, er, d), w')" and "0 < rn"
    and "slice_to (stored (buf s) d) rn = Some chunk"
    and "wr (apply_cb cb chunk) w' = ((wn, Some e), w'')"
  shows "OneWayLinkSpec c rd wr b cb w =
    Some (Return (add_written (total_written (calls s)) wn) (Some e), w'',
          calls s @ [SrcRead (len (buf s)) rn er, DstWrite (apply_cb cb chunk) wn (Some e)])"
proof -
  have "body c rd wr cb s =
      Inr (Return (add_written (written s) wn) (Some e), w'',
           calls s @ [SrcRead (len (buf s)) rn er, DstWrite (apply_cb cb chunk) wn (Some e)])"
    using body_data[of rd s rn er d w' chunk wr cb wn "Some e" w'' c] assms(2-5) by (simp add: Let_def)
  then have "for_loop (body c rd wr cb) s =
      Some (Return (add_written (written s) wn) (Some e), w'',
           calls s @ [SrcRead (len (buf s)) rn er, DstWrite (apply_cb cb chunk) wn (Some e)])"
    by (rule for_loop_Inr)
  with for_loop_iterate[OF assms(1)] reached_written[OF assms(1)]
  show ?thesis by (simp add: OneWayLinkSpec_def)
qed

theorem write_error_ends_the_copy_witness:
  "OneWayLinkSpec None (on_src script_read) (on_dst reply_write) (Some (make_slice 4)) None
     ([([1, 2, 3], None), ([4, 5], None)], ([(3, None), (1, Some (ErrOther ''broken pipe''))], []))
   = Some (Return 4 (Some (ErrOther ''broken pipe'')), ([], ([], [1, 2, 3, 4])),
       [SrcRead 4 3 None, DstWrite [1, 2, 3] 3 None,
        SrcRead 4 2 None, DstWrite [4, 5] 1 (Some (ErrOther ''broken pipe''))])"
proof -
  let ?s = "\<lparr>world = ([([4, 5], None)], ([(1, Some (ErrOther ''broken pipe''))], [1, 2, 3])),
      buf = \<lparr>arr = [1, 2, 3, 0], len = 4\<rparr>, written = 3, polls = 1,
      calls = [SrcRead 4 3 None, DstWrite [1, 2, 3] 3 None]\<rparr>"
  have reach: "iterate (body None (on_src script_read) (on_dst reply_write) None) (Suc 0)
      (init (Some (make_slice 4))
        ([([1, 2, 3], None), ([4, 5], None)], ([(3, None), (1, Some (ErrOther ''broken pipe''))], [])))
      = Some ?s"
    by (simp add: eval_defs)
  have rd: "on_src script_read (buf ?s) (world ?s) =
      ((2, None, [4, 5]), ([], ([(1, Some (ErrOther ''broken pipe''))], [1, 2, 3])))"
    by (simp add: eval_defs)
  have sl: "slice_to (stored (buf ?s) [4, 5]) 2 = Some [4, 5]"
    by (simp add: eval_defs)
  have wr: "on_dst reply_write (apply_cb None [4, 5]) ([], ([(1, Some (ErrOther ''broken pipe''))], [1, 2, 3]))
      = ((1, Some (ErrOther ''broken pipe'')), ([], ([], [1, 2, 3, 4])))"
    by (simp add: eval_defs)
  show ?thesis
    using write_error_ends_the_copy[where c=None and rd="on_src script_read" and wr="on_dst reply_write"
        and cb=None and s="?s" and k="Suc 0", OF reach rd _ sl wr]
    by (simp add: add_written_def apply_cb_def)
qed



text \<open>
  C7.  The claim: under every interleaving of the two flows, \<open>e1\<close> is the error the
  copy from h1 to h2 ended with and \<open>e2\<close> the error of the copy from h2 to h1, and a
  clean end of one copy never hides the error of the other.  Both flows assign the one
  variable \<open>err\<close> and then test it.  Let the copy from h1 to h2 end with a write error
  and the other copy with end-of-input.  When the caller's assignment falls between the
  goroutine's assignment and its test, the goroutine reads nil and \<open>e1\<close> stays nil:
  the error is lost.  When the goroutine's assignment falls between the caller's
  assignment and its test, \<open>e2\<close> is the error of the other direction.  (The wait holds:
  by \<open>returns_after_goroutine\<close> the caller returns only when the goroutine has ended.)
\<close>

theorem shared_err_crosses_directions:
  "TwoWayLinkSpec (5, Some (ErrOther ''broken pipe'')) (7, None)
     [Goroutine, Caller, Goroutine, Goroutine, Goroutine, Goroutine, Caller, Caller, Caller, Caller]
   = Some (5, 7, None, None)
  \<and> TwoWayLinkSpec (5, Some (ErrOther ''broken pipe'')) (7, None)
     [Caller, Goroutine, Caller, Goroutine, Goroutine, Goroutine, Goroutine, Caller, Caller, Caller]
   = Some (5, 7, Some (ErrOther ''broken pipe''), Some (ErrOther ''broken pipe''))"
  by (simp add: TwoWayLinkSpec_def relay_init_def step_go_def step_caller_def)

text \<open>
  C8.  At the head of every iteration that \<open>OneWayLinkSpec\<close> reaches, and when it
  returns, the calls it has made on the endpoints are reads of the source and writes to
  the destination, no close; and whatever can be observed of the world that no read of
  the source and no write to the destination changes (such as which endpoints are open)
  is as it was at the call.
\<close>

theorem only_reads_and_writes:
  "(iterate (body c rd wr cb) k (init b w) = Some s \<longrightarrow>
      SrcClose \<notin> set (calls s) \<and> DstClose \<notin> set (calls s)
      \<and> ((\<forall>p x. f (snd (rd p x)) = f x) \<and> (\<forall>p x. f (snd (wr p x)) = f x)
           \<longrightarrow> f (world s) = f w))
   \<and> (OneWayLinkSpec c rd wr b cb w = Some (r, w', tr) \<longrightarrow>
      SrcClose \<notin> set tr \<and> DstClose \<notin> set tr
      \<and> ((\<forall>p x. f (snd (rd p x)) = f x) \<and> (\<forall>p x. f (snd (wr p x)) = f x)
           \<longrightarrow> f w' = f w))"
proof -
  let ?ok = "\<lambda>es. SrcClose \<notin> set es \<and> DstClose \<notin> set es"
  let ?frame = "(\<forall>p x. f (snd (rd p x)) = f x) \<and> (\<forall>p x. f (snd (wr p x)) = f x)"
  have ok0: "?ok (calls (init b w))" and same0: "f (world (init b w)) = f w"
    by (simp_all add: init_def)
  have ok_step: "?ok (calls y)" if "?ok (calls x)" and "body c rd wr cb x = Inl y" for x y
    using body_calls[of x c rd wr cb y] that by blast
  have ok_exit: "?ok (snd (snd y))" if "?ok (calls x)" and "body c rd wr cb x = Inr y"
    for x and y :: "result \<times> 'a \<times> event list"
    using body_calls[of x c rd wr cb _ "fst y" "fst (snd y)" "snd (snd y)"] that by simp
  have same_step: "f (world y) = f w"
    if "?frame" and "f (world x) = f w" and "body c rd wr cb x = Inl y" for x y
    using body_frame[of f rd wr c cb x y] that by simp
  have same_exit: "f (fst (snd y)) = f w"
    if "?frame" and "f (world x) = f w" and "body c rd wr cb x = Inr y"
    for x and y :: "result \<times> 'a \<times> event list"
    using body_frame[of f rd wr c cb x _ "fst y" "fst (snd y)" "snd (snd y)"] that by simp
  have reached: "?ok (calls s) \<and> (?frame \<longrightarrow> f (world s) = f w)"
    if at: "iterate (body c rd wr cb) k (init b w) = Some s"
  proof -
    have "?ok (calls s)"
      by (rule iterate_invariant[OF at, where I="\<lambda>s. ?ok (calls s)"]) (fact ok0, fact ok_step)
    moreover have "f (world s) = f w" if fr: "?frame"
      by (rule iterate_invariant[OF at, where I="\<lambda>s. f (world s) = f w"])
         (fact same0, rule same_step[OF fr])
    ultimately show ?thesis by blast
  qed
  have returned: "?ok tr \<and> (?frame \<longrightarrow> f w' = f w)"
    if "OneWayLinkSpec c rd wr b cb w = Some (r, w', tr)"
  proof -
    from that have run: "for_loop (body c rd wr cb) (init b w) = Some (r, w', tr)"
      by (simp add: OneWayLinkSpec_def)
    have "?ok (snd (snd (r, w', tr)))"
      by (rule for_loop_invariant[OF run, where I="\<lambda>s. ?ok (calls s)"])
         (fact ok0, fact ok_step, fact ok_exit)
    moreover have "f (fst (snd (r, w', tr))) = f w" if fr: "?frame"
      by (rule for_loop_invariant[OF run, where I="\<lambda>s. f (world s) = f w"])
         (fact same0, rule same_step[OF fr], assumption+, rule same_exit[OF fr])
    ultimately show ?thesis by simp
  qed
  from reached returned show ?thesis by blast
qed

theorem only_reads_and_writes_witness:
  "OneWayLinkSpec None (on_src (on_src script_read)) (beside_wr (on_dst accept_all))
      (Some (make_slice 4)) None (([([1, 2], None)], []), (True, False))
    = Some (Return 2 None, (([], [1, 2]), (True, False)),
        [SrcRead 4 2 None, DstWrite [1, 2] 2 None, SrcRead 4 0 (Some EOF)])
   \<and> SrcClose \<notin> set [SrcRead 4 2 None, DstWrite [1, 2] 2 None, SrcRead 4 0 (Some EOF)]
   \<and> DstClose \<notin> set [SrcRead 4 2 None, DstWrite [1, 2] 2 None, SrcRead 4 0 (Some EOF)]
   \<and> snd ((([] :: (byte list \<times> error option) list, [1, 2 :: byte]), (True, False)))
       = snd ((([([1, 2 :: byte], None :: error option)], [] :: byte list), (True, False)))"
proof -
  let ?w = "(([([1, 2], None)], []), (True, False))
     :: ((byte list \<times> error option) list \<times> byte list) \<times> bool \<times> bool"
  have run: "OneWayLinkSpec None (on_src (on_src script_read)) (beside_wr (on_dst accept_all))
      (Some (make_slice 4)) None ?w
    = Some (Return 2 None, (([], [1, 2]), (True, False)),
        [SrcRead 4 2 None, DstWrite [1, 2] 2 None, SrcRead 4 0 (Some EOF)])"
    by (simp add: eval_defs for_loop.simps)
  have fr: "\<forall>p x. snd (snd (on_src (on_src script_read) p (x :: ((byte list \<times> error option) list \<times> byte list) \<times> bool \<times> bool))) = snd x"
    by (simp add: on_src_def split: prod.split)
  have fw: "\<forall>p x. snd (snd (beside_wr (on_dst accept_all) p (x :: ((byte list \<times> error option) list \<times> byte list) \<times> bool \<times> bool))) = snd x"
    by (simp add: beside_wr_def split: prod.split)
  from only_reads_and_writes[of None "on_src (on_src script_read)" "beside_wr (on_dst accept_all)"
      None 0 "Some (make_slice 4)" ?w "init (Some (make_slice 4)) ?w" snd
      "Return 2 None" "(([], [1, 2]), (True, False))"
      "[SrcRead 4 2 None, DstWrite [1, 2] 2 None, SrcRead 4 0 (Some EOF)]"] fr fw run
  show ?thesis
    by simp
qed

text \<open>
  C9, as amended.  Let the copy reach the head of an iteration in state s, and let the
  read of this iteration deliver \<open>rn > 0\<close> bytes within the buffer's capacity together
  with \<open>io.EOF\<close>.  Then the chunk is transformed and given to one write call, the
  count of that write, when positive, is added to the total, and \<open>OneWayLinkSpec\<close>
  returns with no further call.  It returns the error of the write if there is one,
  and no error when the write reports none and the transformed chunk, as long as the
  chunk read, is written whole.
\<close>

theorem chunk_read_with_eof_is_written:
  assumes "iterate (body c rd wr cb) k (init b w) = Some s"
    and "rd (buf s) (world s) = ((rn, Some EOF, d), w')" and "0 < rn"
    and "slice_to (stored (buf s) d) rn = Some chunk"
    and "wr (apply_cb cb chunk) w' = ((wn, ew), w'')"
  shows "\<exists>err. OneWayLinkSpec c rd wr b cb w =
      Some (Return (add_written (total_written (calls s)) wn) err, w'',
            calls s @ [SrcRead (len (buf s)) rn (Some EOF), DstWrite (apply_cb cb chunk) wn ew])
    \<and> (ew \<noteq> None \<longrightarrow> err = ew)
    \<and> (ew = None \<and> length (apply_cb cb chunk) = length chunk \<and> wn = int (length chunk)
         \<longrightarrow> err = None)"
proof -
  let ?tr = "calls s @ [SrcRead (len (buf s)) rn (Some EOF), DstWrite (apply_cb cb chunk) wn ew]"
  let ?err = "if ew \<noteq> None then ew else if wn \<noteq> rn then Some ErrShortWrite else None"
  have len: "int (length chunk) = rn"
    using assms(3,4) by (auto simp: slice_to_def cap_def split: if_splits)
  have "body c rd wr cb s = Inr (Return (add_written (written s) wn) ?err, w'', ?tr)"
    using body_data[of rd s rn "Some EOF" d w' chunk wr cb wn ew w'' c] assms(2-5)
    by (simp add: Let_def check_er_def)
  then have "for_loop (body c rd wr cb) s = Some (Return (add_written (written s) wn) ?err, w'', ?tr)"
    by (rule for_loop_Inr)
  with for_loop_iterate[OF assms(1)] reached_written[OF assms(1)]
  have "OneWayLinkSpec c rd wr b cb w =
      Some (Return (add_written (total_written (calls s)) wn) ?err, w'', ?tr)"
    by (simp add: OneWayLinkSpec_def)
  with len show ?thesis
    by (intro exI[of _ ?err]) auto
qed

theorem chunk_read_with_eof_is_written_witness:
  "OneWayLinkSpec None (on_src script_read) (on_dst accept_all) (Some (make_slice 4)) None
     ([([1, 2, 3], None), ([4, 5], Some EOF)], [])
   = Some (Return 5 None, ([], [1, 2, 3, 4, 5]),
       [SrcRead 4 3 None, DstWrite [1, 2, 3] 3 None,
        SrcRead 4 2 (Some EOF), DstWrite [4, 5] 2 None])"
proof -
  let ?s = "\<lparr>world = ([([4, 5], Some EOF)], [1, 2, 3]),
      buf = \<lparr>arr = [1, 2, 3, 0], len = 4\<rparr>, written = 3, polls = 1,
      calls = [SrcRead 4 3 None, DstWrite [1, 2, 3] 3 None]\<rparr>"
  have reach: "iterate (body None (on_src script_read) (on_dst accept_all) None) (Suc 0)
      (init (Some (make_slice 4)) ([([1, 2, 3], None), ([4, 5], Some EOF)], [])) = Some ?s"
    by (simp add: eval_defs)
  have rd: "on_src script_read (buf ?s) (world ?s) = ((2, Some EOF, [4, 5]), ([], [1, 2, 3]))"
    by (simp add: eval_defs)
  have sl: "slice_to (stored (buf ?s) [4, 5]) 2 = Some [4, 5]"
    by (simp add: eval_defs)
  have wr: "on_dst accept_all (apply_cb None [4, 5]) ([], [1, 2, 3]) = ((2, None), ([], [1, 2, 3, 4, 5]))"
    by (simp add: eval_defs)
  show ?thesis
    using chunk_read_with_eof_is_written[where c=None and rd="on_src script_read"
        and wr="on_dst accept_all" and cb=None and s="?s" and k="Suc 0", OF reach rd _ sl wr]
    by (auto simp: add_written_def apply_cb_def)
qed

text \<open>The claim as stated promises no error for every destination.  A destination
  whose write fails gets the last chunk, and the copy returns the error of the write.\<close>

theorem failed_write_of_last_chunk_counterexample:
  "OneWayLinkSpec None (on_src script_read) (on_dst reply_write) (Some (make_slice 4)) None
     ([([4, 5], Some EOF)], ([(0, Some (ErrOther ''closed pipe''))], []))
   = Some (Return 0 (Some (ErrOther ''closed pipe'')), ([], ([], [])),
       [SrcRead 4 2 (Some EOF), DstWrite [4, 5] 0 (Some (ErrOther ''closed pipe''))])"
  by code_simp

text \<open>
  C10.  Let the copy reach the head of an iteration in state s, let the read deliver
  \<open>rn > 0\<close> bytes within the buffer's capacity, and let the write of the transformed
  chunk return a count below the length of the chunk together with an error e.  Then
  \<open>OneWayLinkSpec\<close> returns e, the error of the write.
\<close>

theorem write_error_precedes_short_write:
  assumes "iterate (body c rd wr cb) k (init b w) = Some s"
    and "rd (buf s) (world s) = ((rn, er, d), w')" and "0 < rn"
    and "slice_to (stored (buf s) d) rn = Some chunk"
    and "wr (apply_cb cb chunk) w' = ((wn, Some e), w'')"
    and "wn < int (length (apply_cb cb chunk))"
  shows "\<exists>n tr. OneWayLinkSpec c rd wr b cb w = Some (Return n (Some e), w'', tr)"
proof -
  have "body c rd wr cb s =
      Inr (Return (add_written (written s) wn) (Some e), w'',
           calls s @ [SrcRead (len (buf s)) rn er, DstWrite (apply_cb cb chunk) wn (Some e)])"
    using body_data[of rd s rn er d w' chunk wr cb wn "Some e" w'' c] assms(2-5)
    by (simp add: Let_def)
  then have "for_loop (body c rd wr cb) s =
      Some (Return (add_written (written s) wn) (Some e), w'',
           calls s @ [SrcRead (len (buf s)) rn er, DstWrite (apply_cb cb chunk) wn (Some e)])"
    by (rule for_loop_Inr)
  with for_loop_iterate[OF assms(1)] show ?thesis
    by (simp add: OneWayLinkSpec_def)
qed

theorem write_error_precedes_short_write_witness:
  "\<exists>n tr. OneWayLinkSpec None (on_src script_read) (on_dst reply_write) None (Some double)
     ([([7, 8], None)], ([(1, Some (ErrOther ''connection reset''))], []))
   = Some (Return n (Some (ErrOther ''connection reset'')), ([], ([], [7])), tr)"
proof -
  let ?w = "([([7, 8], None)], ([(1, Some (ErrOther ''connection reset''))], [])) ::
     (byte list \<times> error option) list \<times> (int \<times> error option) list \<times> byte list"
  have reach: "iterate (body None (on_src script_read) (on_dst reply_write) (Some double)) 0
      (init None ?w) = Some (init None ?w)"
    by simp
  have rd: "on_src script_read (buf (init None ?w)) (world (init None ?w)) =
      ((2, None, [7, 8]), ([], ([(1, Some (ErrOther ''connection reset''))], [])))"
    by (simp add: init_def on_src_def script_read_def)
  have sl: "slice_to (stored (buf (init None ?w)) [7, 8]) 2 = Some [7, 8]"
    by (simp add: eval_defs)
  have wr: "on_dst reply_write (apply_cb (Some double) [7, 8])
      ([], ([(1, Some (ErrOther ''connection reset''))], []))
      = ((1, Some (ErrOther ''connection reset'')), ([], ([], [7])))"
    by (simp add: eval_defs)
  have short: "(1::int) < int (length (apply_cb (Some double) [7, 8]))"
    by (simp add: eval_defs)
  show ?thesis
    using write_error_precedes_short_write[where c=None and rd="on_src script_read"
        and wr="on_dst reply_write" and cb="Some double" and s="init None ?w" and k=0,
        OF reach rd _ sl wr short]
    by simp
qed

end
